theory Spec2Isabelle
  imports Main "HOL-Library.Multiset"
begin

section \<open>Custom functions of the Session 3 notebook\<close>

text \<open>
  The notebook \<^verbatim>\<open>Python/Session 3/6_Custom Functions S3.ipynb\<close> defines three
  functions: \<^verbatim>\<open>matches\<close>, \<^verbatim>\<open>merge\<close> and \<^verbatim>\<open>search\<close>. A Python sequence is a HOL
  list; a Python string is a sequence of characters, modelled as a list over any
  element type, so that one position is one character. Python integers are \<open>int\<close>.
\<close>

subsection \<open>matches\<close>

text \<open>
  \<^verbatim>\<open>
  def matches(first_string, second_string):
      len1 = len(first_string)
      len2 = len(second_string)
      match_count = 0
      for index in range(len1):
          if index < len2 and first_string[index] == second_string[index]:
              match_count = match_count + 1
      return match_count
  \<close>
  The loop runs over the indices of \<^verbatim>\<open>range(len1)\<close>; \<^verbatim>\<open>and\<close> is short-circuit, so
  \<^verbatim>\<open>second_string[index]\<close> is read only when \<^verbatim>\<open>index < len2\<close>, and no index is out of
  range.
\<close>

fun matches_loop :: "'a list \<Rightarrow> 'a list \<Rightarrow> nat list \<Rightarrow> int \<Rightarrow> int" where
  "matches_loop first_string second_string [] match_count = match_count"
| "matches_loop first_string second_string (index # rest) match_count =
     matches_loop first_string second_string rest
       (if index < length second_string \<and> first_string ! index = second_string ! index
        then match_count + 1 else match_count)"

definition matches :: "'a list \<Rightarrow> 'a list \<Rightarrow> int" where
  "matches first_string second_string =
     (let len1 = length first_string
      in matches_loop first_string second_string [0..<len1] 0)"

subsection \<open>merge\<close>

text \<open>
  \<^verbatim>\<open>
  def merge(list1, list2):
          merged_list = []
          print("Using sort function")
          merged_list.extend(list1)
          merged_list.extend(list2)
          merged_list.sort()
          return merged_list
  \<close>
  Python lists are mutable objects passed by reference, and \<^verbatim>\<open>extend\<close> and \<^verbatim>\<open>sort\<close>
  mutate their receiver (\<open>extend_list\<close> and \<open>sort_in_place\<close> below). The interpreter
  state is therefore explicit: a heap of list objects addressed by their index, and the
  lines printed so far. \<^verbatim>\<open>[]\<close> allocates a new object at the end of the heap.
  \<^verbatim>\<open>list.sort\<close> is a stable ascending sort, as is \<open>sort\<close>; elements that cannot be
  compared are excluded by the type class.
\<close>

record 'a interp =
  heap :: "'a list list"
  stdout :: "string list"

type_synonym ref = nat

definition new_list :: "'a interp \<Rightarrow> ref \<times> 'a interp" where
  "new_list s = (length (heap s), s\<lparr>heap := heap s @ [[]]\<rparr>)"

definition print :: "string \<Rightarrow> 'a interp \<Rightarrow> 'a interp" where
  "print line s = s\<lparr>stdout := stdout s @ [line]\<rparr>"

definition extend_list :: "ref \<Rightarrow> ref \<Rightarrow> 'a interp \<Rightarrow> 'a interp" where
  "extend_list target source s = s\<lparr>heap := (heap s)[target := heap s ! target @ heap s ! source]\<rparr>"

definition sort_in_place :: "ref \<Rightarrow> ('a::linorder) interp \<Rightarrow> 'a interp" where
  "sort_in_place target s = s\<lparr>heap := (heap s)[target := sort (heap s ! target)]\<rparr>"

definition merge :: "ref \<Rightarrow> ref \<Rightarrow> ('a::linorder) interp \<Rightarrow> ref \<times> 'a interp" where
  "merge list1 list2 s =
     (let (merged_list, s1) = new_list s;
          s2 = print ''Using sort function'' s1;
          s3 = extend_list merged_list list1 s2;
          s4 = extend_list merged_list list2 s3;
          s5 = sort_in_place merged_list s4
      in (merged_list, s5))"

subsection \<open>search\<close>

text \<open>
  \<^verbatim>\<open>
  def search(list1, element, use_search):
      returned_index = -1
      if use_search:
          print("Using index function")
          returned_index = list1.index(element)
      else:
          index = 0
          for list_element in list1:
              if list_element == element:
                  returned_index = index
                  break
              index = index + 1
      return returned_index
  \<close>
  The elements are Python objects. Equality of the HOL values is the identity of the
  objects (\<^verbatim>\<open>is\<close>); the result of \<^verbatim>\<open>==\<close> is decided by the objects themselves
  (\<^verbatim>\<open>__eq__\<close>), so it is a parameter \<open>eq\<close> of the model, of which nothing is assumed:
  \<open>eq x y\<close> is the truth of \<^verbatim>\<open>x == y\<close>. The loop tests
  \<^verbatim>\<open>list_element == element\<close>. \<^verbatim>\<open>list.index\<close> returns the position of the first item
  that is the searched object or is \<^verbatim>\<open>==\<close> to it, and raises \<^verbatim>\<open>ValueError\<close> when there
  is none. The function reads its list and mutates nothing, so the list is passed by
  value; the printed lines are threaded through.
\<close>

datatype py_error = ValueError

fun list_index :: "('a \<Rightarrow> 'a \<Rightarrow> bool) \<Rightarrow> 'a list \<Rightarrow> 'a \<Rightarrow> py_error + int" where
  "list_index eq [] element = Inl ValueError"
| "list_index eq (item # rest) element =
     (if item = element \<or> eq item element then Inr 0
      else (case list_index eq rest element of
              Inl err \<Rightarrow> Inl err
            | Inr i \<Rightarrow> Inr (i + 1)))"

fun search_loop :: "('a \<Rightarrow> 'a \<Rightarrow> bool) \<Rightarrow> 'a list \<Rightarrow> 'a \<Rightarrow> int \<Rightarrow> int \<Rightarrow> int" where
  "search_loop eq [] element index returned_index = returned_index"
| "search_loop eq (list_element # rest) element index returned_index =
     (if eq list_element element then index
      else search_loop eq rest element (index + 1) returned_index)"

definition search ::
  "('a \<Rightarrow> 'a \<Rightarrow> bool) \<Rightarrow> 'a list \<Rightarrow> 'a \<Rightarrow> bool \<Rightarrow> string list
     \<Rightarrow> (py_error + int) \<times> string list" where
  "search eq list1 element use_search out =
     (let returned_index = - 1
      in if use_search
         then (let out1 = out @ [''Using index function'']
               in (case list_index eq list1 element of
                     Inl err \<Rightarrow> (Inl err, out1)
                   | Inr i \<Rightarrow> (Inr i, out1)))
         else (Inr (search_loop eq list1 element 0 returned_index), out))"

text \<open>
  Python floats, as far as the examples below need them: the floats with a whole value,
  and the object \<^verbatim>\<open>math.nan\<close>. \<^verbatim>\<open>==\<close> on floats compares the values of two numbers
  and is false as soon as one side is NaN, also for \<^verbatim>\<open>math.nan == math.nan\<close>.
\<close>

datatype py_float = Finite int | NaN

fun float_eq :: "py_float \<Rightarrow> py_float \<Rightarrow> bool" where
  "float_eq (Finite x) (Finite y) = (x = y)"
| "float_eq NaN y = False"
| "float_eq x NaN = False"

section \<open>Task graph orchestrator\<close>

text \<open>
  The churn pipeline is driven by \<^verbatim>\<open>src/orchestrate.py\<close>, which the repository's
  \<^verbatim>\<open>README.md\<close> and \<^verbatim>\<open>setup.sh\<close> name and call, but whose code is not among the
  source files. The definitions of this section are therefore written from sections 3,
  4.1, 4.2 and 7 of the specification. A stage is identified by its name; an artifact
  store maps the logical name of an artifact to its bytes.
\<close>

type_synonym content = string

type_synonym artifact_store = "string \<rightharpoonup> content"

text \<open>Modelled from the spec: the data-source mode of a run, "enumerated: synthetic |
  external-dataset" (section 3, Pipeline Run); \<^verbatim>\<open>src/orchestrate.py\<close> is missing.\<close>

datatype data_source = Synthetic | ExternalDataset

text \<open>Modelled from the spec: the parameter set of a run, "data-source mode, optional run
  tag" (section 4.1); \<^verbatim>\<open>src/orchestrate.py\<close> is missing.\<close>

record run_params =
  mode :: data_source
  run_tag :: "string option"

text \<open>Modelled from the spec: the stage-local errors of the error taxonomy (section 7);
  \<open>StageError\<close> stands for any other error a transformation raises. The stage
  functions of \<^verbatim>\<open>src/\<close> are missing.\<close>

datatype stage_error =
  MissingInputError | ValidationFailedError | DataUnavailableError | StageError string

text \<open>Modelled from the spec: the terminal status of a stage in the per-stage status
  table (sections 4.1 and 7); \<^verbatim>\<open>src/orchestrate.py\<close> is missing.\<close>

datatype stage_status = Succeeded | Failed stage_error | UpstreamFailed

text \<open>Modelled from the spec: a Stage value "(name, inputs, outputs, function reference,
  retry policy)" with its "ordered list of declared upstream dependencies (by name)"
  (sections 3, 4.2 and 9); \<^verbatim>\<open>src/orchestrate.py\<close> is missing. The transformation
  receives the number of the attempt (0, then 1 for the single retry), the run
  parameters and the bytes of its declared inputs, and returns the bytes of its declared
  outputs or an error.\<close>

record stage =
  stage_name :: string
  depends_on :: "string list"
  inputs :: "string list"
  outputs :: "string list"
  transform :: "nat \<Rightarrow> run_params \<Rightarrow> content list \<Rightarrow> stage_error + content list"
  transient :: bool

text \<open>Modelled from the spec: the structural error of the taxonomy, "GraphCycleError
  (structural, fatal, pre-execution)" (section 7); \<^verbatim>\<open>src/orchestrate.py\<close> is
  missing.\<close>

datatype orchestrator_error = GraphCycleError

subsection \<open>Execution order\<close>

text \<open>Modelled from the spec: "a stage may only be scheduled once all its dependencies
  have completed" (section 3, Stage); the scheduler of \<^verbatim>\<open>src/orchestrate.py\<close> is
  missing. A stage is ready when each of its declared dependencies is among the stages
  already placed in the order.\<close>

definition ready :: "string list \<Rightarrow> stage \<Rightarrow> bool" where
  "ready completed s = list_all (\<lambda>d. d \<in> set completed) (depends_on s)"

text \<open>Modelled from the spec: the choice of the next stage of the topological order
  (section 4.1); the scheduler of \<^verbatim>\<open>src/orchestrate.py\<close> is missing. The first ready
  stage, in the order of declaration, is taken out of the pending ones.\<close>

fun pick_ready :: "string list \<Rightarrow> stage list \<Rightarrow> (stage \<times> stage list) option" where
  "pick_ready completed [] = None"
| "pick_ready completed (s # rest) =
     (if ready completed s then Some (s, rest)
      else (case pick_ready completed rest of
              None \<Rightarrow> None
            | Some (t, rest') \<Rightarrow> Some (t, s # rest')))"

text \<open>Modelled from the spec: "It computes a topological order; if the dependency graph
  contains a cycle, it fails with a GraphCycleError before any stage executes"
  (section 4.1); the scheduler of \<^verbatim>\<open>src/orchestrate.py\<close> is missing. Ready stages are
  appended to the order one at a time; when stages are pending and none is ready, the
  ordering fails.\<close>

function topo_sort :: "stage list \<Rightarrow> stage list \<Rightarrow> orchestrator_error + stage list" where
  "topo_sort ordered [] = Inr ordered"
| "topo_sort ordered (s # pending) =
     (case pick_ready (map stage_name ordered) (s # pending) of
        None \<Rightarrow> Inl GraphCycleError
      | Some (t, rest) \<Rightarrow> topo_sort (ordered @ [t]) rest)"
  by pat_completeness auto
termination
proof (relation "measure (\<lambda>(ordered, pending). length pending)")
  show "wf (measure (\<lambda>(ordered, pending). length pending))" by simp
next
  fix ordered :: "stage list" and s pending x2 t rest
  assume pick: "pick_ready (map stage_name ordered) (s # pending) = Some x2"
    and x2: "(t, rest) = x2"
  have shrink: "pick_ready c xs = Some (u, ys) \<Longrightarrow> length xs = Suc (length ys)" for c xs u ys
    by (induction xs arbitrary: ys) (auto split: if_splits option.splits)
  from pick x2 have "length (s # pending) = Suc (length rest)"
    using shrink [of "map stage_name ordered" "s # pending" t rest] by simp
  then show "((ordered @ [t], rest), (ordered, s # pending))
      \<in> measure (\<lambda>(ordered, pending). length pending)" by simp
qed

text \<open>Modelled from the spec: the execution order of a statically declared collection of
  stages (section 4.1); \<^verbatim>\<open>src/orchestrate.py\<close> is missing.\<close>

definition execution_order :: "stage list \<Rightarrow> orchestrator_error + stage list" where
  "execution_order g = topo_sort [] g"

text \<open>Modelled from the spec: the dependency edges of the graph, one edge from each
  declared upstream dependency to the stage that declares it (sections 3 and 4.1); the
  graph of \<^verbatim>\<open>src/orchestrate.py\<close> is missing. The graph contains a cycle when this
  relation is not \<open>acyclic\<close>.\<close>

definition dep_edges :: "stage list \<Rightarrow> (string \<times> string) set" where
  "dep_edges g = set (concat (map (\<lambda>s. map (\<lambda>d. (d, stage_name s)) (depends_on s)) g))"

text \<open>Modelled from the spec: topological validity, "the computed execution order places
  every stage after all of its declared dependencies" (section 8); it is a property of
  orders, used to state the results below.\<close>

definition deps_precede :: "stage list \<Rightarrow> bool" where
  "deps_precede xs \<longleftrightarrow>
     (\<forall>i < length xs. \<forall>d \<in> set (depends_on (xs ! i)). \<exists>j < i. stage_name (xs ! j) = d)"

subsection \<open>Running the stages\<close>

text \<open>Modelled from the spec: the configuration "continue-on-warning" of the
  orchestrator (section 4.2); \<^verbatim>\<open>src/orchestrate.py\<close> is missing.\<close>

record config =
  continue_on_warning :: bool

text \<open>Modelled from the spec: the run-scoped state the orchestrator owns, the per-stage
  status table, with the artifact store it writes to (section 3, Ownership); the
  invocations are the call-count instrumentation of section 8: one entry per call of a
  transformation. \<^verbatim>\<open>src/orchestrate.py\<close> is missing.\<close>

record run_state =
  statuses :: "(string \<times> stage_status) list"
  artifacts :: artifact_store
  invocations :: "string list"

text \<open>Modelled from the spec: the state of a run "created when orchestration starts"
  (section 3, Pipeline Run); \<^verbatim>\<open>src/orchestrate.py\<close> is missing.\<close>

definition initial_state :: "artifact_store \<Rightarrow> run_state" where
  "initial_state store = \<lparr>statuses = [], artifacts = store, invocations = []\<rparr>"

text \<open>Modelled from the spec: "For each stage in order, it verifies all declared
  dependencies reported success" (section 4.1); \<^verbatim>\<open>src/orchestrate.py\<close> is missing.\<close>

definition deps_succeeded :: "run_state \<Rightarrow> stage \<Rightarrow> bool" where
  "deps_succeeded rs s =
     list_all (\<lambda>d. map_of (statuses rs) d = Some Succeeded) (depends_on s)"

text \<open>Modelled from the spec: "MissingInputError if a declared dependency's artifact is
  absent at execution time" (section 4.2); the stage wrapper of
  \<^verbatim>\<open>src/orchestrate.py\<close> is missing.\<close>

definition read_inputs :: "artifact_store \<Rightarrow> stage \<Rightarrow> stage_error + content list" where
  "read_inputs store s =
     (if list_all (\<lambda>a. store a \<noteq> None) (inputs s)
      then Inr (map (\<lambda>a. the (store a)) (inputs s))
      else Inl MissingInputError)"

text \<open>Modelled from the spec: "a policy of at most one retry for stages flagged as
  transient-failure-prone ..., with no retry for pure-computation stages" (section 4.1);
  the stage wrapper of \<^verbatim>\<open>src/orchestrate.py\<close> is missing. The result comes with the
  number of calls made.\<close>

definition invoke_stage ::
  "run_params \<Rightarrow> stage \<Rightarrow> content list \<Rightarrow> (stage_error + content list) \<times> nat" where
  "invoke_stage p s ins =
     (case transform s 0 p ins of
        Inr outs \<Rightarrow> (Inr outs, 1)
      | Inl e \<Rightarrow> if transient s then (transform s 1 p ins, 2) else (Inl e, 1))"

text \<open>Modelled from the spec: "persists artifacts stage-by-stage" (section 4.1); the
  artifact store of \<^verbatim>\<open>src/\<close> is missing.\<close>

definition write_artifacts :: "(string \<times> content) list \<Rightarrow> artifact_store \<Rightarrow> artifact_store" where
  "write_artifacts written store = fold (\<lambda>(a, c) m. m(a \<mapsto> c)) written store"

text \<open>Modelled from the spec: the entry of a stage in the per-stage status table
  (section 7); \<^verbatim>\<open>src/orchestrate.py\<close> is missing.\<close>

definition record_status :: "stage \<Rightarrow> stage_status \<Rightarrow> run_state \<Rightarrow> run_state" where
  "record_status s st rs = rs\<lparr>statuses := statuses rs @ [(stage_name s, st)]\<rparr>"

text \<open>Modelled from the spec: one stage of a run (sections 4.1 and 4.2): "if any dependency
  failed, the dependent stage is skipped and marked UpstreamFailed rather than
  executed"; raised errors are captured "into a stage-level failure record"; a
  \<open>ValidationFailedError\<close> is "a stage failure unless explicitly configured to
  continue-on-warning". The stage wrapper of \<^verbatim>\<open>src/orchestrate.py\<close> is missing.\<close>

definition execute_stage :: "config \<Rightarrow> run_params \<Rightarrow> stage \<Rightarrow> run_state \<Rightarrow> run_state" where
  "execute_stage cfg p s rs =
     (if \<not> deps_succeeded rs s then record_status s UpstreamFailed rs
      else (case read_inputs (artifacts rs) s of
              Inl e \<Rightarrow> record_status s (Failed e) rs
            | Inr ins \<Rightarrow>
                (let (res, calls) = invoke_stage p s ins;
                     rs1 = rs\<lparr>invocations := invocations rs @ replicate calls (stage_name s)\<rparr>
                 in (case res of
                       Inr outs \<Rightarrow>
                         record_status s Succeeded
                           (rs1\<lparr>artifacts :=
                                  write_artifacts (zip (outputs s) outs) (artifacts rs1)\<rparr>)
                     | Inl e \<Rightarrow>
                         if e = ValidationFailedError \<and> continue_on_warning cfg
                         then record_status s Succeeded rs1
                         else record_status s (Failed e) rs1))))"

text \<open>Modelled from the spec: "single-threaded ... execution of the DAG in topological
  order per run" (section 5); the run loop of \<^verbatim>\<open>src/orchestrate.py\<close> is missing.\<close>

fun run_stages :: "config \<Rightarrow> run_params \<Rightarrow> stage list \<Rightarrow> run_state \<Rightarrow> run_state" where
  "run_stages cfg p [] rs = rs"
| "run_stages cfg p (s # rest) rs = run_stages cfg p rest (execute_stage cfg p s rs)"

text \<open>Modelled from the spec: "A run is reported SUCCESS only if every stage reports
  success; otherwise PARTIAL_FAILURE with the list of failed/skipped stage names"
  (section 4.1); \<^verbatim>\<open>src/orchestrate.py\<close> is missing.\<close>

datatype run_result = SUCCESS | PARTIAL_FAILURE "string list"

text \<open>Modelled from the spec: the run summary over the per-stage status table
  (section 4.1); \<^verbatim>\<open>src/orchestrate.py\<close> is missing.\<close>

definition summarize :: "(string \<times> stage_status) list \<Rightarrow> run_result" where
  "summarize table =
     (let bad = map fst (filter (\<lambda>(n, st). st \<noteq> Succeeded) table)
      in if bad = [] then SUCCESS else PARTIAL_FAILURE bad)"

text \<open>Modelled from the spec: the Task Graph Orchestrator (section 4.1): the order is
  computed first, a cyclic graph fails "before any stage executes (fail fast, no partial
  run)", and otherwise the stages run in order. \<^verbatim>\<open>src/orchestrate.py\<close> is missing.\<close>

definition run_pipeline ::
  "config \<Rightarrow> run_params \<Rightarrow> stage list \<Rightarrow> artifact_store
     \<Rightarrow> (orchestrator_error + run_result) \<times> run_state" where
  "run_pipeline cfg p g store =
     (case execution_order g of
        Inl err \<Rightarrow> (Inl err, initial_state store)
      | Inr order \<Rightarrow>
          (let rs = run_stages cfg p order (initial_state store)
           in (Inr (summarize (statuses rs)), rs)))"

subsection \<open>Example stages\<close>

text \<open>
  Two stages in the shape of the pipeline of the \<^verbatim>\<open>README.md\<close>: ingestion, which
  depends on nothing and is retried once, and preparation, which depends on it. The
  third stage closes a cycle with the fourth.
\<close>

definition ingest_stage :: stage where
  "ingest_stage = \<lparr>stage_name = ''ingest'', depends_on = [], inputs = [],
     outputs = [''raw''], transform = (\<lambda>attempt p ins. Inr [''rows'']), transient = True\<rparr>"

definition prepare_stage :: stage where
  "prepare_stage = \<lparr>stage_name = ''prepare'', depends_on = [''ingest''], inputs = [''raw''],
     outputs = [''prepared''], transform = (\<lambda>attempt p ins. Inr ins), transient = False\<rparr>"

definition stage_a :: stage where
  "stage_a = \<lparr>stage_name = ''A'', depends_on = [''B''], inputs = [],
     outputs = [''a''], transform = (\<lambda>attempt p ins. Inr [''a'']), transient = False\<rparr>"

definition stage_b :: stage where
  "stage_b = \<lparr>stage_name = ''B'', depends_on = [''A''], inputs = [],
     outputs = [''b''], transform = (\<lambda>attempt p ins. Inr [''b'']), transient = False\<rparr>"

section \<open>Properties of the notebook functions\<close>

subsection \<open>matches counts the agreeing positions\<close>

lemma matches_loop_count:
  "distinct idxs \<Longrightarrow>
   matches_loop a b idxs c = c + int (card {i \<in> set idxs. i < length b \<and> a ! i = b ! i})"
proof (induction idxs arbitrary: c)
  case Nil
  then show ?case by simp
next
  case (Cons i idxs)
  let ?P = "\<lambda>j. j < length b \<and> a ! j = b ! j"
  have fin: "finite {j \<in> set idxs. ?P j}" by simp
  have notin: "i \<notin> {j \<in> set idxs. ?P j}" using Cons.prems by simp
  show ?case
  proof (cases "?P i")
    case True
    then have "{j \<in> set (i # idxs). ?P j} = insert i {j \<in> set idxs. ?P j}" by auto
    then have "card {j \<in> set (i # idxs). ?P j} = Suc (card {j \<in> set idxs. ?P j})"
      using fin notin by simp
    with True Cons show ?thesis by simp
  next
    case False
    then have "{j \<in> set (i # idxs). ?P j} = {j \<in> set idxs. ?P j}" by auto
    with False Cons show ?thesis by simp
  qed
qed

lemma matches_card:
  "matches a b = int (card {i. i < min (length a) (length b) \<and> a ! i = b ! i})"
proof -
  have "{i \<in> set [0..<length a]. i < length b \<and> a ! i = b ! i}
        = {i. i < min (length a) (length b) \<and> a ! i = b ! i}" by auto
  then show ?thesis by (simp add: matches_def matches_loop_count)
qed

text \<open>
  Claim C9. For every pair of strings \<open>a\<close> and \<open>b\<close>, \<open>matches a b\<close> is the number of
  indices \<open>i\<close> below \<open>min (len a) (len b)\<close> at which \<open>a\<close> and \<open>b\<close> hold the same
  character; consequently \<open>matches a b = matches b a\<close>, also for strings of different
  lengths.
\<close>

theorem matches_count_commutative:
  "matches a b = int (card {i. i < min (length a) (length b) \<and> a ! i = b ! i})
   \<and> matches a b = matches b a"
proof -
  have "{i. i < min (length a) (length b) \<and> a ! i = b ! i}
        = {i. i < min (length b) (length a) \<and> b ! i = a ! i}" by auto
  then show ?thesis by (simp add: matches_card)
qed

theorem matches_count_commutative_witness:
  "matches ''python'' ''path'' = 3 \<and> matches ''path'' ''python'' = 3"
  using matches_count_commutative [of "''python''" "''path''"]
  by (simp add: matches_def)

subsection \<open>merge builds a new sorted list\<close>

text \<open>
  Claim C10. For lists \<open>list1\<close> and \<open>list2\<close> of comparable elements (two objects of
  the heap, possibly the same one), \<open>merge\<close> returns a new object, not one of the
  objects that existed before the call; the new list is sorted, its elements are the
  multiset union of those of \<open>list1\<close> and \<open>list2\<close>, and every list that existed
  before the call, \<open>list1\<close> and \<open>list2\<close> among them, holds what it held before.
\<close>

theorem merge_sorted_union_no_mutation:
  assumes "list1 < length (heap s)" and "list2 < length (heap s)"
    and "merge list1 list2 s = (merged_list, s')"
  shows "merged_list = length (heap s)
    \<and> merged_list < length (heap s')
    \<and> sorted (heap s' ! merged_list)
    \<and> mset (heap s' ! merged_list) = mset (heap s ! list1) + mset (heap s ! list2)
    \<and> heap s' ! list1 = heap s ! list1
    \<and> heap s' ! list2 = heap s ! list2
    \<and> (\<forall>r < length (heap s). heap s' ! r = heap s ! r)"
  using assms
  by (auto simp: merge_def new_list_def print_def extend_list_def sort_in_place_def
      nth_append Let_def)

theorem merge_sorted_union_no_mutation_witness:
  "merge 0 1 \<lparr>heap = [[1, 2, 3, 4, 5], [1, 11, 45, 67 :: int]], stdout = []\<rparr>
     = (2, \<lparr>heap = [[1, 2, 3, 4, 5], [1, 11, 45, 67], [1, 1, 2, 3, 4, 5, 11, 45, 67]],
            stdout = [''Using sort function'']\<rparr>)
   \<and> sorted [1, 1, 2, 3, 4, 5, 11, 45, 67 :: int]
   \<and> mset [1, 1, 2, 3, 4, 5, 11, 45, 67 :: int] = mset [1, 2, 3, 4, 5] + mset [1, 11, 45, 67]"
proof -
  let ?s = "\<lparr>heap = [[1, 2, 3, 4, 5], [1, 11, 45, 67 :: int]], stdout = []\<rparr>"
  let ?s' = "\<lparr>heap = [[1, 2, 3, 4, 5], [1, 11, 45, 67 :: int], [1, 1, 2, 3, 4, 5, 11, 45, 67]],
            stdout = [''Using sort function'']\<rparr>"
  have run: "merge 0 1 ?s = (2, ?s')"
    by (simp add: merge_def new_list_def print_def extend_list_def sort_in_place_def)
  have "sorted (heap ?s' ! 2) \<and> mset (heap ?s' ! 2) = mset (heap ?s ! 0) + mset (heap ?s ! 1)"
    using merge_sorted_union_no_mutation [of 0 ?s 1 2 ?s'] run by simp
  with run show ?thesis by simp
qed

subsection \<open>search: the two modes and the two equalities\<close>

lemma list_index_absent:
  "\<forall>x \<in> set l. \<not> eq x e \<Longrightarrow> \<forall>x \<in> set l. x = e \<longrightarrow> eq x e \<Longrightarrow>
   list_index eq l e = Inl ValueError"
  by (induction l) auto

lemma search_loop_absent: "\<forall>x \<in> set l. \<not> eq x e \<Longrightarrow> search_loop eq l e i r = r"
  by (induction l arbitrary: i) auto

lemma first_equal_index:
  "\<exists>x \<in> set l. eq x e \<Longrightarrow> \<forall>x \<in> set l. x = e \<longrightarrow> eq x e \<Longrightarrow>
   \<exists>k. k < length l \<and> eq (l ! k) e \<and> (\<forall>j < k. \<not> eq (l ! j) e)
     \<and> list_index eq l e = Inr (int k) \<and> (\<forall>i r. search_loop eq l e i r = i + int k)"
proof (induction l)
  case Nil
  then show ?case by simp
next
  case (Cons x xs)
  show ?case
  proof (cases "eq x e")
    case True
    then have "0 < length (x # xs) \<and> eq ((x # xs) ! 0) e \<and> (\<forall>j < 0. \<not> eq ((x # xs) ! j) e)
      \<and> list_index eq (x # xs) e = Inr (int 0)
      \<and> (\<forall>i r. search_loop eq (x # xs) e i r = i + int 0)"
      by simp
    then show ?thesis by blast
  next
    case False
    with Cons.prems(2) have ne: "x \<noteq> e" by auto
    from False Cons.prems(1) have "\<exists>y \<in> set xs. eq y e" by simp
    moreover from Cons.prems(2) have "\<forall>y \<in> set xs. y = e \<longrightarrow> eq y e" by simp
    ultimately obtain k where k: "k < length xs" "eq (xs ! k) e"
      "\<forall>j < k. \<not> eq (xs ! j) e" "list_index eq xs e = Inr (int k)"
      "\<forall>i r. search_loop eq xs e i r = i + int k" using Cons.IH by blast
    have "\<forall>j < Suc k. \<not> eq ((x # xs) ! j) e"
      using False k(3) by (auto simp: nth_Cons split: nat.splits)
    moreover have "list_index eq (x # xs) e = Inr (int (Suc k))"
      using False ne k(4) by simp
    moreover have "\<forall>i r. search_loop eq (x # xs) e i r = i + int (Suc k)"
      using False k(5) by simp
    ultimately have "Suc k < length (x # xs) \<and> eq ((x # xs) ! Suc k) e
      \<and> (\<forall>j < Suc k. \<not> eq ((x # xs) ! j) e)
      \<and> list_index eq (x # xs) e = Inr (int (Suc k))
      \<and> (\<forall>i r. search_loop eq (x # xs) e i r = i + int (Suc k))"
      using k(1,2) by simp
    then show ?thesis by blast
  qed
qed

text \<open>
  Claim C8, as stated, fails. With \<open>x = math.nan\<close>, the list \<open>[1.0, x, 3.0]\<close> holds the
  object \<open>x\<close> at index 1, and no element of the list is \<^verbatim>\<open>==\<close> to \<open>x\<close>. The manual
  search returns \<open>-1\<close> although \<open>x\<close> occurs in the list, and \<^verbatim>\<open>list.index\<close> returns 1
  instead of raising \<open>ValueError\<close> although no element equals \<open>x\<close>: whichever way
  "occurs" is read, one of the two modes does not do what the claim says.
\<close>

theorem search_nan_counterexample:
  "NaN \<in> set [Finite 1, NaN, Finite 3]
   \<and> \<not> float_eq (Finite 1) NaN \<and> \<not> float_eq NaN NaN \<and> \<not> float_eq (Finite 3) NaN
   \<and> fst (search float_eq [Finite 1, NaN, Finite 3] NaN True []) = Inr 1
   \<and> fst (search float_eq [Finite 1, NaN, Finite 3] NaN False []) = Inr (- 1)"
  by (simp add: search_def)

text \<open>
  Claim C8, amended. Let \<open>l\<close> and \<open>e\<close> be such that every element of \<open>l\<close> that is the
  object \<open>e\<close> is also \<^verbatim>\<open>==\<close> to \<open>e\<close> (as holds whenever \<^verbatim>\<open>e == e\<close>, so for every value
  but one like NaN). When no element of \<open>l\<close> is \<^verbatim>\<open>==\<close> to \<open>e\<close>, \<open>search l e False\<close>
  returns \<open>-1\<close>, whereas \<open>search l e True\<close> raises \<open>ValueError\<close> (from \<open>list.index\<close>)
  and returns nothing. When some element of \<open>l\<close> is \<^verbatim>\<open>==\<close> to \<open>e\<close>, both modes return
  the index of the first such element.
\<close>

theorem search_modes_agree:
  assumes "\<forall>x \<in> set l. x = e \<longrightarrow> eq x e"
  shows "((\<forall>x \<in> set l. \<not> eq x e) \<longrightarrow>
      fst (search eq l e False out) = Inr (- 1)
      \<and> fst (search eq l e True out) = Inl ValueError)
   \<and> ((\<exists>x \<in> set l. eq x e) \<longrightarrow>
      (\<exists>k. k < length l \<and> eq (l ! k) e \<and> (\<forall>j < k. \<not> eq (l ! j) e)
         \<and> fst (search eq l e False out) = Inr (int k)
         \<and> fst (search eq l e True out) = Inr (int k)))"
proof (intro conjI impI)
  assume "\<forall>x \<in> set l. \<not> eq x e"
  then show "fst (search eq l e False out) = Inr (- 1)"
    by (simp add: search_def search_loop_absent)
next
  assume "\<forall>x \<in> set l. \<not> eq x e"
  with assms have "list_index eq l e = Inl ValueError"
    using list_index_absent [where eq = eq and l = l and e = e] by blast
  then show "fst (search eq l e True out) = Inl ValueError"
    by (simp add: search_def)
next
  assume "\<exists>x \<in> set l. eq x e"
  with assms first_equal_index [where eq = eq and l = l and e = e] obtain k where k: "k < length l" "eq (l ! k) e"
    "\<forall>j < k. \<not> eq (l ! j) e" "list_index eq l e = Inr (int k)"
    "\<forall>i r. search_loop eq l e i r = i + int k" by blast
  then have "fst (search eq l e False out) = Inr (int k)
    \<and> fst (search eq l e True out) = Inr (int k)"
    by (simp add: search_def)
  with k(1,2,3) show "\<exists>k. k < length l \<and> eq (l ! k) e \<and> (\<forall>j < k. \<not> eq (l ! j) e)
         \<and> fst (search eq l e False out) = Inr (int k)
         \<and> fst (search eq l e True out) = Inr (int k)" by blast
qed

theorem search_modes_agree_witness:
  "fst (search float_eq [Finite 1, Finite 4, Finite 9, Finite 3, Finite 0] (Finite 8) False [])
     = Inr (- 1)
   \<and> fst (search float_eq [Finite 1, Finite 4, Finite 9, Finite 3, Finite 0] (Finite 8) True [])
     = Inl ValueError
   \<and> (\<exists>k. k < length [Finite 1, Finite 4, Finite 9, Finite 3, Finite 0]
        \<and> float_eq ([Finite 1, Finite 4, Finite 9, Finite 3, Finite 0] ! k) (Finite 4)
        \<and> (\<forall>j < k. \<not> float_eq ([Finite 1, Finite 4, Finite 9, Finite 3, Finite 0] ! j) (Finite 4))
        \<and> fst (search float_eq [Finite 1, Finite 4, Finite 9, Finite 3, Finite 0] (Finite 4)
                 False []) = Inr (int k)
        \<and> fst (search float_eq [Finite 1, Finite 4, Finite 9, Finite 3, Finite 0] (Finite 4)
                 True []) = Inr (int k))"
proof -
  let ?l = "[Finite 1, Finite 4, Finite 9, Finite 3, Finite 0]"
  have refl8: "\<forall>x \<in> set ?l. x = Finite 8 \<longrightarrow> float_eq x (Finite 8)" by simp
  have refl4: "\<forall>x \<in> set ?l. x = Finite 4 \<longrightarrow> float_eq x (Finite 4)" by simp
  have absent: "\<forall>x \<in> set ?l. \<not> float_eq x (Finite 8)" by simp
  have present: "\<exists>x \<in> set ?l. float_eq x (Finite 4)" by simp
  from search_modes_agree [where eq = float_eq and l = ?l and e = "Finite 8" and out = "[]"]
    refl8 absent
  have a: "fst (search float_eq ?l (Finite 8) False []) = Inr (- 1)
    \<and> fst (search float_eq ?l (Finite 8) True []) = Inl ValueError" by blast
  from search_modes_agree [where eq = float_eq and l = ?l and e = "Finite 4" and out = "[]"]
    refl4 present
  have b: "\<exists>k. k < length ?l \<and> float_eq (?l ! k) (Finite 4)
        \<and> (\<forall>j < k. \<not> float_eq (?l ! j) (Finite 4))
        \<and> fst (search float_eq ?l (Finite 4) False []) = Inr (int k)
        \<and> fst (search float_eq ?l (Finite 4) True []) = Inr (int k)" by blast
  from a b show ?thesis by blast
qed

section \<open>Properties of the execution order\<close>

lemma dep_edges_iff:
  "(d, n) \<in> dep_edges g \<longleftrightarrow> (\<exists>s \<in> set g. n = stage_name s \<and> d \<in> set (depends_on s))"
  by (auto simp: dep_edges_def)

lemma dep_edges_mset: "mset xs = mset ys \<Longrightarrow> dep_edges xs = dep_edges ys"
  by (auto simp: dep_edges_iff dest: mset_eq_setD)

lemma pick_ready_Some:
  "pick_ready c xs = Some (t, rest) \<Longrightarrow> ready c t \<and> mset xs = add_mset t (mset rest)"
  by (induction xs arbitrary: rest) (auto split: if_splits option.splits)

lemma pick_ready_None: "pick_ready c xs = None \<Longrightarrow> s \<in> set xs \<Longrightarrow> \<not> ready c s"
  by (induction xs) (auto split: if_splits option.splits)

text \<open>Appending a ready stage keeps every stage after its dependencies.\<close>

lemma deps_precede_snoc:
  assumes "deps_precede xs" and "ready (map stage_name xs) t"
  shows "deps_precede (xs @ [t])"
  unfolding deps_precede_def
proof (intro allI impI ballI)
  fix i d
  assume i: "i < length (xs @ [t])" and d: "d \<in> set (depends_on ((xs @ [t]) ! i))"
  show "\<exists>j < i. stage_name ((xs @ [t]) ! j) = d"
  proof (cases "i < length xs")
    case True
    with d assms(1) obtain j where "j < i" "stage_name (xs ! j) = d"
      unfolding deps_precede_def by (auto simp: nth_append)
    with True show ?thesis by (auto simp: nth_append intro!: exI [of _ j])
  next
    case False
    with i have ieq: "i = length xs" by simp
    with d have "d \<in> set (depends_on t)" by simp
    with assms(2) have "d \<in> set (map stage_name xs)" by (auto simp: ready_def list_all_iff)
    then obtain j where "j < length xs" "stage_name (xs ! j) = d"
      by (auto simp: in_set_conv_nth)
    with ieq show ?thesis by (auto simp: nth_append intro!: exI [of _ j])
  qed
qed

text \<open>Whatever order is returned holds the pending stages after the ordered ones, each
  after its dependencies.\<close>

lemma topo_sort_sound:
  "topo_sort ordered pending = Inr order \<Longrightarrow> deps_precede ordered \<Longrightarrow>
   deps_precede order \<and> mset order = mset ordered + mset pending"
proof (induction ordered pending rule: topo_sort.induct)
  case (1 ordered)
  then show ?case by simp
next
  case (2 ordered s pending)
  from "2.prems"(1) obtain t rest where
    pick: "pick_ready (map stage_name ordered) (s # pending) = Some (t, rest)"
    and rec: "topo_sort (ordered @ [t]) rest = Inr order"
    by (auto split: option.splits)
  from pick_ready_Some [OF pick] have rdy: "ready (map stage_name ordered) t"
    and ms: "mset (s # pending) = add_mset t (mset rest)" by simp_all
  have "deps_precede (ordered @ [t])" using "2.prems"(2) rdy by (rule deps_precede_snoc)
  with "2.IH" [OF pick refl rec] have "deps_precede order"
    and "mset order = mset (ordered @ [t]) + mset rest" by simp_all
  with ms show ?case by simp
qed

text \<open>In an acyclic graph whose dependencies are all declared, some pending stage is
  always ready: a finite acyclic relation is well-founded, so the pending names have a
  minimal element.\<close>

lemma topo_sort_complete:
  assumes closed: "\<forall>s \<in> set g. set (depends_on s) \<subseteq> stage_name ` set g"
    and acyc: "acyclic (dep_edges g)"
  shows "set ordered \<union> set pending = set g \<Longrightarrow> \<exists>order. topo_sort ordered pending = Inr order"
proof (induction ordered pending rule: topo_sort.induct)
  case (1 ordered)
  then show ?case by simp
next
  case (2 ordered s pending)
  have "finite (dep_edges g)" by (simp add: dep_edges_def)
  then have wf: "wf (dep_edges g)" using acyc by (rule finite_acyclic_wf)
  have "stage_name s \<in> stage_name ` set (s # pending)" by simp
  with wf obtain z where z: "z \<in> stage_name ` set (s # pending)"
    and zmin: "\<And>y. (y, z) \<in> dep_edges g \<Longrightarrow> y \<notin> stage_name ` set (s # pending)"
    by (rule wfE_min) blast
  from z obtain u where u: "u \<in> set (s # pending)" "z = stage_name u" by blast
  have ug: "u \<in> set g" using u(1) "2.prems" by blast
  have "ready (map stage_name ordered) u"
    unfolding ready_def list_all_iff
  proof
    fix d assume d: "d \<in> set (depends_on u)"
    then have "(d, z) \<in> dep_edges g" using ug u(2) by (auto simp: dep_edges_iff)
    then have "d \<notin> stage_name ` set (s # pending)" by (rule zmin)
    moreover have "d \<in> stage_name ` set g" using closed ug d by blast
    ultimately show "d \<in> set (map stage_name ordered)" using "2.prems" by auto
  qed
  with u(1) have "pick_ready (map stage_name ordered) (s # pending) \<noteq> None"
    using pick_ready_None by blast
  then obtain t rest where
    pick: "pick_ready (map stage_name ordered) (s # pending) = Some (t, rest)" by auto
  from pick_ready_Some [OF pick] have "mset (s # pending) = add_mset t (mset rest)" by simp
  then have "set (s # pending) = insert t (set rest)"
    by (metis set_mset_add_mset_insert set_mset_mset)
  then have "set (ordered @ [t]) \<union> set rest = set g" using "2.prems" by auto
  from "2.IH" [OF pick refl this] pick show ?case by simp
qed

text \<open>An order with distinct names in which every stage follows its dependencies
  numbers the stages so that every edge goes upwards; its graph has no cycle.\<close>

lemma deps_precede_acyclic:
  assumes dp: "deps_precede order" and dist: "distinct (map stage_name order)"
  shows "acyclic (dep_edges order)"
proof -
  define pos where "pos n = (THE i. i < length order \<and> stage_name (order ! i) = n)" for n
  have pos_eq: "pos (stage_name (order ! i)) = i" if "i < length order" for i
    unfolding pos_def
  proof (rule the_equality)
    show "i < length order \<and> stage_name (order ! i) = stage_name (order ! i)" using that by simp
  next
    fix k assume "k < length order \<and> stage_name (order ! k) = stage_name (order ! i)"
    then have "k < length (map stage_name order)" "i < length (map stage_name order)"
      "map stage_name order ! k = map stage_name order ! i"
      using that by simp_all
    with nth_eq_iff_index_eq [OF dist, of k i] show "k = i" by blast
  qed
  have "dep_edges order \<subseteq> inv_image less_than pos"
  proof
    fix e assume e: "e \<in> dep_edges order"
    obtain d n where dn: "e = (d, n)" by (cases e)
    with e obtain s where s: "s \<in> set order" "n = stage_name s" "d \<in> set (depends_on s)"
      by (auto simp: dep_edges_iff)
    then obtain i where i: "i < length order" "order ! i = s" by (auto simp: in_set_conv_nth)
    with dp s(3) obtain j where j: "j < i" "stage_name (order ! j) = d"
      unfolding deps_precede_def by blast
    have "pos d = j" using pos_eq [of j] j i(1) by simp
    moreover have "pos n = i" using pos_eq [of i] i s(2) by simp
    ultimately show "e \<in> inv_image less_than pos" using j(1) dn by simp
  qed
  then have "wf (dep_edges order)" by (rule wf_subset [OF wf_inv_image [OF wf_less_than]])
  then show ?thesis by (rule wf_acyclic)
qed

lemma cyclic_no_order:
  assumes dist: "distinct (map stage_name g)" and cyc: "\<not> acyclic (dep_edges g)"
  shows "execution_order g = Inl GraphCycleError"
proof (cases "execution_order g")
  case (Inl e)
  then show ?thesis by (cases e) simp
next
  case (Inr order)
  then have "topo_sort [] g = Inr order" by (simp add: execution_order_def)
  from topo_sort_sound [OF this] have dp: "deps_precede order" and ms: "mset order = mset g"
    by (simp_all add: deps_precede_def)
  from ms have "mset (map stage_name order) = mset (map stage_name g)" by (metis mset_map)
  with dist have "distinct (map stage_name order)" by (metis mset_eq_imp_distinct_iff)
  with dp have "acyclic (dep_edges order)" by (rule deps_precede_acyclic)
  with ms cyc show ?thesis using dep_edges_mset by metis
qed

text \<open>
  Claim C1. For every valid dependency graph, that is, one whose declared dependencies
  are all stages of the graph and whose dependency edges form no cycle, the orchestrator
  computes an execution order; the order holds the stages of the graph, each once, and
  every stage comes strictly after each of its declared upstream dependencies.
\<close>

theorem execution_order_topological:
  assumes "\<forall>s \<in> set g. set (depends_on s) \<subseteq> stage_name ` set g"
    and "acyclic (dep_edges g)"
  shows "\<exists>order. execution_order g = Inr order \<and> mset order = mset g
    \<and> (\<forall>i < length order. \<forall>d \<in> set (depends_on (order ! i)).
          \<exists>j < i. stage_name (order ! j) = d)"
proof -
  have "set [] \<union> set g = set g" by simp
  from topo_sort_complete [OF assms this] obtain order where
    order: "topo_sort [] g = Inr order" by blast
  have "deps_precede []" by (simp add: deps_precede_def)
  with topo_sort_sound [OF order] have "deps_precede order" "mset order = mset g" by simp_all
  with order show ?thesis unfolding deps_precede_def execution_order_def by blast
qed

theorem execution_order_topological_witness:
  "execution_order [prepare_stage, ingest_stage] = Inr [ingest_stage, prepare_stage]
   \<and> (\<exists>order. execution_order [prepare_stage, ingest_stage] = Inr order
        \<and> mset order = mset [prepare_stage, ingest_stage]
        \<and> (\<forall>i < length order. \<forall>d \<in> set (depends_on (order ! i)).
              \<exists>j < i. stage_name (order ! j) = d))"
proof -
  let ?g = "[prepare_stage, ingest_stage]"
  have closed: "\<forall>s \<in> set ?g. set (depends_on s) \<subseteq> stage_name ` set ?g"
    by (simp add: prepare_stage_def ingest_stage_def)
  have "dep_edges ?g = {(''ingest'', ''prepare'')}"
    by (simp add: dep_edges_def prepare_stage_def ingest_stage_def)
  then have acyc: "acyclic (dep_edges ?g)" by (simp add: wf_acyclic)
  have "execution_order ?g = Inr [ingest_stage, prepare_stage]"
    by (simp add: execution_order_def ready_def prepare_stage_def ingest_stage_def)
  with execution_order_topological [OF closed acyc] show ?thesis by simp
qed

text \<open>
  Claim C2. For every dependency graph (stages identified by their names) that contains a
  cycle, the orchestrator fails with \<open>GraphCycleError\<close> before any stage executes: no
  transformation is invoked, no stage has a status, and the artifact store is the one
  the run was given, so no artifact is written.
\<close>

theorem cyclic_graph_fails_before_any_stage:
  assumes "distinct (map stage_name g)" and "\<not> acyclic (dep_edges g)"
  shows "run_pipeline cfg p g store
           = (Inl GraphCycleError, \<lparr>statuses = [], artifacts = store, invocations = []\<rparr>)"
  using cyclic_no_order [OF assms] by (simp add: run_pipeline_def initial_state_def)

theorem cyclic_graph_fails_before_any_stage_witness:
  "distinct (map stage_name [stage_a, stage_b]) \<and> \<not> acyclic (dep_edges [stage_a, stage_b])
   \<and> run_pipeline \<lparr>continue_on_warning = False\<rparr> \<lparr>mode = Synthetic, run_tag = None\<rparr>
         [stage_a, stage_b] Map.empty
       = (Inl GraphCycleError, \<lparr>statuses = [], artifacts = Map.empty, invocations = []\<rparr>)"
proof -
  let ?g = "[stage_a, stage_b]"
  let ?cfg = "\<lparr>continue_on_warning = False\<rparr>"
  let ?p = "\<lparr>mode = Synthetic, run_tag = None\<rparr>"
  have dist: "distinct (map stage_name ?g)" by (simp add: stage_a_def stage_b_def)
  have edges: "dep_edges ?g = {(''B'', ''A''), (''A'', ''B'')}"
    by (simp add: dep_edges_def stage_a_def stage_b_def)
  have "(''A'', ''B'') \<in> dep_edges ?g" and "(''B'', ''A'') \<in> dep_edges ?g"
    using edges by simp_all
  then have "(''A'', ''A'') \<in> (dep_edges ?g)\<^sup>+" by (rule trancl_into_trancl2 [OF _ r_into_trancl])
  then have cyc: "\<not> acyclic (dep_edges ?g)" unfolding acyclic_def by blast
  from cyclic_graph_fails_before_any_stage [OF dist cyc, of ?cfg ?p Map.empty] dist cyc
  show ?thesis by simp
qed

end
